theory Spec2Isabelle
  imports Main
begin

section \<open>Chain of responsibility: the handler pipeline\<close>

text \<open>
  The development embeds \<^verbatim>\<open>src/behavioral_patterns/chain_of_responsibility/main.cpp\<close>.
  Handlers are objects shared through \<^verbatim>\<open>std::shared_ptr\<close>, and \<^verbatim>\<open>SetNext\<close> mutates the
  receiver, so the objects live in an explicit store and every operation passes the
  store along.
\<close>

subsection \<open>Objects, pointers and the store\<close>

text \<open>
  An address is an index into the store. A \<^verbatim>\<open>std::shared_ptr<Handler>\<close> is an optional
  address, \<open>None\<close> being \<^verbatim>\<open>nullptr\<close>.
\<close>

type_synonym addr = nat
type_synonym ptr = "addr option"

text \<open>
  The dynamic class of an object. \<^verbatim>\<open>AbstractHandler\<close> overrides both pure virtual
  functions of \<^verbatim>\<open>Handler\<close>, so it can be instantiated as well as its three subclasses.
\<close>

datatype cls = AbstractHandler | MonkeyHandler | SquirrelHandler | DogHandler

text \<open>
  An object carries its dynamic class and the one data member of \<^verbatim>\<open>AbstractHandler\<close>,
  \<^verbatim>\<open>next_handler_\<close>.
\<close>

record object =
  vptr :: cls
  next_handler :: ptr

type_synonym heap = "object list"

text \<open>
  Calling a member function through a null pointer, or through a pointer to no object,
  is undefined behaviour in the source. The model reports it as a fault instead of a value.
\<close>

datatype fault = NullDereference | DanglingPointer

subsection \<open>Construction and linking\<close>

text \<open>
  \<^verbatim>\<open>std::make_shared<C>()\<close> allocates a new object and runs the constructor
  \<^verbatim>\<open>AbstractHandler() : next_handler_(nullptr)\<close>.
\<close>

definition make_shared :: "cls \<Rightarrow> heap \<Rightarrow> ptr \<times> heap" where
  "make_shared c h = (Some (length h), h @ [\<lparr>vptr = c, next_handler = None\<rparr>])"

text \<open>
  The body of \<^verbatim>\<open>AbstractHandler::SetNext\<close>: store the argument in the receiver's
  \<^verbatim>\<open>next_handler_\<close> and return the argument. No subclass overrides it.
\<close>

definition AbstractHandler_SetNext :: "heap \<Rightarrow> addr \<Rightarrow> ptr \<Rightarrow> ptr \<times> heap" where
  "AbstractHandler_SetNext h this handler =
     (handler, h[this := (h ! this)\<lparr>next_handler := handler\<rparr>])"

text \<open>The call \<^verbatim>\<open>p->SetNext(handler)\<close> through a shared pointer \<open>p\<close>.\<close>

definition SetNext :: "heap \<Rightarrow> ptr \<Rightarrow> ptr \<Rightarrow> fault + ptr \<times> heap" where
  "SetNext h p handler =
     (case p of
        None \<Rightarrow> Inl NullDereference
      | Some this \<Rightarrow>
          if length h \<le> this then Inl DanglingPointer
          else Inr (AbstractHandler_SetNext h this handler))"

text \<open>The fluent expression \<^verbatim>\<open>a->SetNext(b)->SetNext(c)\<close> of \<^verbatim>\<open>main\<close>.\<close>

definition SetNext_SetNext :: "heap \<Rightarrow> ptr \<Rightarrow> ptr \<Rightarrow> ptr \<Rightarrow> fault + ptr \<times> heap" where
  "SetNext_SetNext h a b c =
     (case SetNext h a b of
        Inl e \<Rightarrow> Inl e
      | Inr (p, h') \<Rightarrow> SetNext h' p c)"

subsection \<open>Handling a request\<close>

text \<open>
  A call of \<^verbatim>\<open>Handle\<close> is either virtual (\<^verbatim>\<open>next_handler_->Handle(request)\<close>, resolved by the
  dynamic class of the receiver) or qualified (\<^verbatim>\<open>AbstractHandler::Handle(request)\<close>, bound
  statically).
\<close>

datatype dispatch = Virtual | Static cls

text \<open>
  The four bodies of \<^verbatim>\<open>Handle\<close>. The recursion follows the successor pointers and does not
  end on a cyclic chain; then the value is \<open>None\<close>. A call that returns yields the string
  and the store as the call leaves it.
\<close>

partial_function (option) Handle_call ::
  "dispatch \<Rightarrow> heap \<Rightarrow> addr \<Rightarrow> string \<Rightarrow> (fault + string \<times> heap) option" where
  "Handle_call d h this request =
     (if length h \<le> this then Some (Inl DanglingPointer)
      else case d of
        Virtual \<Rightarrow> Handle_call (Static (vptr (h ! this))) h this request
      | Static AbstractHandler \<Rightarrow>
          (case next_handler (h ! this) of
             Some n \<Rightarrow> Handle_call Virtual h n request
           | None \<Rightarrow> Some (Inr ([], h)))
      | Static MonkeyHandler \<Rightarrow>
          (if request = ''Banana''
           then Some (Inr (''Monkey: I'll eat the '' @ request @ ''.\<newline>'', h))
           else Handle_call (Static AbstractHandler) h this request)
      | Static SquirrelHandler \<Rightarrow>
          (if request = ''Nut''
           then Some (Inr (''Squirrel: I'll eat the '' @ request @ ''.\<newline>'', h))
           else Handle_call (Static AbstractHandler) h this request)
      | Static DogHandler \<Rightarrow>
          (if request = ''MeatBall''
           then Some (Inr (''Dog: I'll eat the '' @ request @ ''.\<newline>'', h))
           else Handle_call (Static AbstractHandler) h this request))"

text \<open>The call \<^verbatim>\<open>p->Handle(request)\<close> through a shared pointer \<open>p\<close>.\<close>

definition Handle :: "heap \<Rightarrow> ptr \<Rightarrow> string \<Rightarrow> (fault + string \<times> heap) option" where
  "Handle h p request =
     (case p of
        None \<Rightarrow> Some (Inl NullDereference)
      | Some this \<Rightarrow> Handle_call Virtual h this request)"

text \<open>
  The same four bodies with a budget on the number of virtual calls, that is, on the
  number of Handlers one call of \<^verbatim>\<open>Handle\<close> may visit. \<open>None\<close> means that the budget
  was used up.
\<close>

function Handle_within ::
  "nat \<Rightarrow> dispatch \<Rightarrow> heap \<Rightarrow> addr \<Rightarrow> string \<Rightarrow> (fault + string \<times> heap) option" where
  "Handle_within budget d h this request =
     (if length h \<le> this then Some (Inl DanglingPointer)
      else case d of
        Virtual \<Rightarrow>
          (case budget of
             0 \<Rightarrow> None
           | Suc k \<Rightarrow> Handle_within k (Static (vptr (h ! this))) h this request)
      | Static AbstractHandler \<Rightarrow>
          (case next_handler (h ! this) of
             Some n \<Rightarrow> Handle_within budget Virtual h n request
           | None \<Rightarrow> Some (Inr ([], h)))
      | Static MonkeyHandler \<Rightarrow>
          (if request = ''Banana''
           then Some (Inr (''Monkey: I'll eat the '' @ request @ ''.\<newline>'', h))
           else Handle_within budget (Static AbstractHandler) h this request)
      | Static SquirrelHandler \<Rightarrow>
          (if request = ''Nut''
           then Some (Inr (''Squirrel: I'll eat the '' @ request @ ''.\<newline>'', h))
           else Handle_within budget (Static AbstractHandler) h this request)
      | Static DogHandler \<Rightarrow>
          (if request = ''MeatBall''
           then Some (Inr (''Dog: I'll eat the '' @ request @ ''.\<newline>'', h))
           else Handle_within budget (Static AbstractHandler) h this request))"
  by pat_completeness auto
termination
  by (relation "measure (\<lambda>(budget, d, h, this, request).
        3 * budget + (case d of Virtual \<Rightarrow> 0 | Static AbstractHandler \<Rightarrow> 1 | Static _ \<Rightarrow> 2))")
     (auto split: cls.splits)

declare Handle_within.simps [simp del]

subsection \<open>The program's chain\<close>

text \<open>
  The first four statements of \<^verbatim>\<open>main\<close>: three Handlers are allocated on the empty store
  and linked by \<^verbatim>\<open>monkey->SetNext(squirrel)->SetNext(dog)\<close>. The result is the three
  pointers and the store.
\<close>

definition main_chain :: "fault + (ptr \<times> ptr \<times> ptr) \<times> heap" where
  "main_chain =
     (case make_shared MonkeyHandler [] of (monkey, h1) \<Rightarrow>
       (case make_shared SquirrelHandler h1 of (squirrel, h2) \<Rightarrow>
         (case make_shared DogHandler h2 of (dog, h3) \<Rightarrow>
           (case SetNext_SetNext h3 monkey squirrel dog of
              Inl e \<Rightarrow> Inl e
            | Inr (_, h4) \<Rightarrow> Inr ((monkey, squirrel, dog), h4)))))"

text \<open>The store on which \<^verbatim>\<open>main\<close> calls \<^verbatim>\<open>ClientCode\<close>.\<close>

definition main_store :: heap where
  "main_store = (case main_chain of Inl e \<Rightarrow> [] | Inr (ps, h) \<Rightarrow> h)"

subsection \<open>Vocabulary for stating properties\<close>

text \<open>
  \<open>chain h p as\<close>: following the successor pointers from \<open>p\<close> visits exactly the objects
  at the addresses \<open>as\<close>, in this order, and then reaches \<^verbatim>\<open>nullptr\<close>. Such a list holds no
  address twice: the chain that \<open>p\<close> enters is acyclic.
\<close>

fun chain :: "heap \<Rightarrow> ptr \<Rightarrow> addr list \<Rightarrow> bool" where
  "chain h None as = (as = [])"
| "chain h (Some a) [] = False"
| "chain h (Some a) (b # bs) = (a = b \<and> a < length h \<and> chain h (next_handler (h ! a)) bs)"

text \<open>
  \<open>linked h a as\<close>: \<open>as\<close> is a walk along the successor pointers that starts at the
  object \<open>a\<close>. Nothing is said about the successor of its last object, so a walk exists
  on a cyclic chain as well.
\<close>

fun linked :: "heap \<Rightarrow> addr \<Rightarrow> addr list \<Rightarrow> bool" where
  "linked h a [] = False"
| "linked h a [b] = (a = b \<and> a < length h)"
| "linked h a (b # c # cs) =
     (a = b \<and> a < length h \<and> next_handler (h ! a) = Some c \<and> linked h c (c # cs))"

text \<open>
  The local predicate of each class, read off the condition of its \<^verbatim>\<open>Handle\<close>, and the
  string its \<^verbatim>\<open>Handle\<close> returns on a match. \<^verbatim>\<open>AbstractHandler::Handle\<close> tests nothing.
\<close>

fun matches :: "cls \<Rightarrow> string \<Rightarrow> bool" where
  "matches AbstractHandler request = False"
| "matches MonkeyHandler request = (request = ''Banana'')"
| "matches SquirrelHandler request = (request = ''Nut'')"
| "matches DogHandler request = (request = ''MeatBall'')"

fun description :: "cls \<Rightarrow> string \<Rightarrow> string" where
  "description AbstractHandler request = []"
| "description MonkeyHandler request = ''Monkey: I'll eat the '' @ request @ ''.\<newline>''"
| "description SquirrelHandler request = ''Squirrel: I'll eat the '' @ request @ ''.\<newline>''"
| "description DogHandler request = ''Dog: I'll eat the '' @ request @ ''.\<newline>''"

text \<open>
  The dynamic class of the object at an address of the store. It is read at addresses
  below \<open>length h\<close> only.
\<close>

definition class_at :: "heap \<Rightarrow> addr \<Rightarrow> cls" where
  "class_at h a = vptr (h ! a)"

text \<open>
  The result of the pipeline as a function of the classes in link order and the request:
  the description of the first class whose predicate matches, the empty string if there
  is none.
\<close>

fun first_match :: "cls list \<Rightarrow> string \<Rightarrow> string" where
  "first_match [] request = []"
| "first_match (c # cs) request =
     (if matches c request then description c request else first_match cs request)"

text \<open>
  The number of Handlers a call visits, as a function of the classes in link order: all
  Handlers up to and including the first whose predicate matches.
\<close>

fun visits :: "cls list \<Rightarrow> string \<Rightarrow> nat" where
  "visits [] request = 0"
| "visits (c # cs) request = (if matches c request then 1 else Suc (visits cs request))"

section \<open>Basic facts\<close>

subsection \<open>One step of a call\<close>

lemma Handle_call_dangling:
  "length h \<le> this \<Longrightarrow> Handle_call d h this request = Some (Inl DanglingPointer)"
  by (subst Handle_call.simps) simp

lemma Handle_call_Virtual:
  "this < length h \<Longrightarrow>
   Handle_call Virtual h this request = Handle_call (Static (class_at h this)) h this request"
  by (subst Handle_call.simps) (simp add: class_at_def)

lemma Handle_call_Abstract:
  "this < length h \<Longrightarrow>
   Handle_call (Static AbstractHandler) h this request =
     (case next_handler (h ! this) of
        Some n \<Rightarrow> Handle_call Virtual h n request
      | None \<Rightarrow> Some (Inr ([], h)))"
  by (subst Handle_call.simps) simp

lemma Handle_call_Static:
  assumes "this < length h"
  shows "Handle_call (Static c) h this request =
     (if matches c request then Some (Inr (description c request, h))
      else case next_handler (h ! this) of
             Some n \<Rightarrow> Handle_call Virtual h n request
           | None \<Rightarrow> Some (Inr ([], h)))"
proof (cases c)
  case AbstractHandler
  with assms show ?thesis by (simp add: Handle_call_Abstract)
next
  case MonkeyHandler
  with assms show ?thesis
    by (subst Handle_call.simps) (simp add: Handle_call_Abstract)
next
  case SquirrelHandler
  with assms show ?thesis
    by (subst Handle_call.simps) (simp add: Handle_call_Abstract)
next
  case DogHandler
  with assms show ?thesis
    by (subst Handle_call.simps) (simp add: Handle_call_Abstract)
qed

lemma Handle_call_step:
  "this < length h \<Longrightarrow>
   Handle_call Virtual h this request =
     (if matches (class_at h this) request
      then Some (Inr (description (class_at h this) request, h))
      else case next_handler (h ! this) of
             Some n \<Rightarrow> Handle_call Virtual h n request
           | None \<Rightarrow> Some (Inr ([], h)))"
  by (simp add: Handle_call_Virtual Handle_call_Static)

subsection \<open>Chains, walks and the first match\<close>

lemma chain_Nil: "chain h p [] \<longleftrightarrow> p = None"
  by (cases p) simp_all

lemma chain_drop:
  "chain h p as \<Longrightarrow> k < length as \<Longrightarrow> chain h (Some (as ! k)) (drop k as)"
proof (induction as arbitrary: p k)
  case Nil
  then show ?case by simp
next
  case (Cons b bs)
  then obtain a where p: "p = Some a" by (cases p) auto
  with Cons.prems have a: "a = b" "a < length h" and rest: "chain h (next_handler (h ! a)) bs"
    by auto
  show ?case
  proof (cases k)
    case 0
    with a rest show ?thesis by simp
  next
    case (Suc k')
    with Cons.prems have "k' < length bs" by simp
    from Cons.IH [OF rest this] Suc show ?thesis by simp
  qed
qed

lemma chain_last_null:
  "chain h p as \<Longrightarrow> as \<noteq> [] \<Longrightarrow> next_handler (h ! last as) = None"
proof (induction as arbitrary: p)
  case Nil
  then show ?case by simp
next
  case (Cons b bs)
  then obtain a where p: "p = Some a" by (cases p) auto
  with Cons.prems have a: "a = b" and rest: "chain h (next_handler (h ! b)) bs"
    by auto
  show ?case
  proof (cases "bs = []")
    case True
    with rest show ?thesis by (simp add: chain_Nil)
  next
    case False
    with Cons.IH [OF rest] show ?thesis by simp
  qed
qed

lemma chain_functional: "chain h p as \<Longrightarrow> chain h p bs \<Longrightarrow> as = bs"
proof (induction as arbitrary: p bs)
  case Nil
  then show ?case by (cases p; cases bs) auto
next
  case (Cons c cs)
  then obtain a where p: "p = Some a" by (cases p) auto
  with Cons.prems obtain d ds where bs: "bs = d # ds" by (cases bs) auto
  with Cons p show ?case by auto
qed

lemma chain_distinct:
  assumes "chain h p as"
  shows "distinct as"
proof (rule ccontr)
  assume "\<not> distinct as"
  then obtain i j where i: "i < length as" and j: "j < length as" and ne: "i \<noteq> j"
    and eq: "as ! i = as ! j"
    by (auto simp: distinct_conv_nth)
  from chain_drop [OF assms i] eq have "chain h (Some (as ! j)) (drop i as)" by simp
  with chain_drop [OF assms j] have "drop j as = drop i as" by (rule chain_functional)
  then have "length (drop j as) = length (drop i as)" by simp
  with i j ne show False by simp
qed

lemma chain_linked: "chain h (Some a) as \<Longrightarrow> linked h a as"
proof (induction as arbitrary: a)
  case Nil
  then show ?case by simp
next
  case (Cons b bs)
  then have a: "a = b" "a < length h" and rest: "chain h (next_handler (h ! a)) bs"
    by auto
  show ?case
  proof (cases bs)
    case Nil
    with a show ?thesis by simp
  next
    case bs: (Cons c cs)
    with rest obtain n where n: "next_handler (h ! a) = Some n"
      by (cases "next_handler (h ! a)") auto
    with rest bs have c: "n = c" by simp
    from rest n c have "chain h (Some c) bs" by simp
    then have "linked h c bs" by (rule Cons.IH)
    with a n c bs show ?thesis by simp
  qed
qed

lemma linked_Cons: "linked h a as \<Longrightarrow> \<exists>bs. as = a # bs"
  by (induction h a as rule: linked.induct) simp_all

lemma linked_null_chain:
  "linked h a as \<Longrightarrow> next_handler (h ! last as) = None \<Longrightarrow> chain h (Some a) as"
  by (induction h a as rule: linked.induct) simp_all

lemma linked_in_chain:
  "linked h a bs \<Longrightarrow> chain h (Some a) as \<Longrightarrow> set bs \<subseteq> set as"
proof (induction h a bs arbitrary: as rule: linked.induct)
  case (1 h a)
  then show ?case by simp
next
  case (2 h a b)
  then show ?case by (cases as) auto
next
  case (3 h a b c cs)
  from "3.prems"(1) have a: "a = b" "next_handler (h ! a) = Some c"
    and rest: "linked h c (c # cs)"
    by auto
  from "3.prems"(2) obtain as' where as: "as = a # as'" and tl: "chain h (next_handler (h ! a)) as'"
    by (cases as) auto
  from tl a have "chain h (Some c) as'" by simp
  with "3.IH" rest have "set (c # cs) \<subseteq> set as'" by blast
  with a as show ?case by auto
qed

lemma chain_reachable:
  "chain h (Some a) as \<Longrightarrow> b \<in> set as \<Longrightarrow> \<exists>bs. linked h a bs \<and> last bs = b"
proof (induction as arbitrary: a)
  case Nil
  then show ?case by simp
next
  case (Cons x xs)
  then have a: "a = x" "a < length h" and rest: "chain h (next_handler (h ! a)) xs"
    by auto
  show ?case
  proof (cases "b = a")
    case True
    with a have "linked h a [a] \<and> last [a] = b" by simp
    then show ?thesis by blast
  next
    case False
    with Cons.prems a have bx: "b \<in> set xs" by simp
    then have "xs \<noteq> []" by auto
    with rest obtain c where c: "next_handler (h ! a) = Some c"
      by (cases "next_handler (h ! a)") (auto simp: chain_Nil)
    with rest have "chain h (Some c) xs" by simp
    from Cons.IH [OF this bx] obtain bs where bs: "linked h c bs" "last bs = b" by blast
    from linked_Cons [OF bs(1)] obtain cs where cs: "bs = c # cs" by blast
    with bs a c have "linked h a (a # bs) \<and> last (a # bs) = b" by simp
    then show ?thesis by blast
  qed
qed

lemma linked_first_match:
  "linked h a as \<Longrightarrow> \<forall>j. Suc j < length as \<longrightarrow> \<not> matches (class_at h (as ! j)) request \<Longrightarrow>
   first_match (map (class_at h) as) request = first_match [class_at h (last as)] request"
proof (induction h a as rule: linked.induct)
  case (1 h a)
  then show ?case by simp
next
  case (2 h a b)
  then show ?case by simp
next
  case (3 h a b c cs)
  from "3.prems"(1) have rest: "linked h c (c # cs)" by simp
  from "3.prems"(2) [rule_format, of 0] have nm: "\<not> matches (class_at h b) request"
    by simp
  have "\<forall>j. Suc j < length (c # cs) \<longrightarrow> \<not> matches (class_at h ((c # cs) ! j)) request"
  proof (intro allI impI)
    fix j assume "Suc j < length (c # cs)"
    then have "Suc (Suc j) < length (b # c # cs)" by simp
    with "3.prems"(2) [rule_format, of "Suc j"]
    have "\<not> matches (class_at h ((b # c # cs) ! Suc j)) request" by simp
    then show "\<not> matches (class_at h ((c # cs) ! j)) request" by simp
  qed
  with "3.IH" rest have "first_match (map (class_at h) (c # cs)) request =
      first_match [class_at h (last (c # cs))] request"
    by blast
  with nm show ?case by simp
qed

lemma Handle_call_chain:
  "chain h (Some a) as \<Longrightarrow>
   Handle_call Virtual h a request = Some (Inr (first_match (map (class_at h) as) request, h))"
proof (induction as arbitrary: a)
  case Nil
  then show ?case by simp
next
  case (Cons b bs)
  then have a: "a = b" "a < length h" and rest: "chain h (next_handler (h ! a)) bs"
    by auto
  show ?case
  proof (cases "next_handler (h ! a)")
    case None
    with rest have "bs = []" by simp
    with a None show ?thesis by (simp add: Handle_call_step)
  next
    case (Some n)
    with rest Cons.IH have "Handle_call Virtual h n request =
        Some (Inr (first_match (map (class_at h) bs) request, h))"
      by simp
    with a Some show ?thesis by (simp add: Handle_call_step)
  qed
qed

lemma linked_skip:
  "linked h a as \<Longrightarrow> \<forall>j. Suc j < length as \<longrightarrow> \<not> matches (class_at h (as ! j)) request \<Longrightarrow>
   Handle_call Virtual h a request = Handle_call Virtual h (last as) request"
proof (induction h a as rule: linked.induct)
  case (1 h a)
  then show ?case by simp
next
  case (2 h a b)
  then show ?case by simp
next
  case (3 h a b c cs)
  from "3.prems"(1) have a: "a = b" "a < length h" "next_handler (h ! a) = Some c"
    and rest: "linked h c (c # cs)"
    by auto
  from "3.prems"(2) [rule_format, of 0] a have nm: "\<not> matches (class_at h a) request"
    by simp
  have "\<forall>j. Suc j < length (c # cs) \<longrightarrow> \<not> matches (class_at h ((c # cs) ! j)) request"
  proof (intro allI impI)
    fix j assume "Suc j < length (c # cs)"
    then have "Suc (Suc j) < length (b # c # cs)" by simp
    with "3.prems"(2) [rule_format, of "Suc j"]
    have "\<not> matches (class_at h ((b # c # cs) ! Suc j)) request" by simp
    then show "\<not> matches (class_at h ((c # cs) ! j)) request" by simp
  qed
  with "3.IH" rest have "Handle_call Virtual h c request =
      Handle_call Virtual h (last (c # cs)) request"
    by blast
  with a nm show ?case by (simp add: Handle_call_step)
qed

lemma Handle_call_linked:
  assumes "linked h a as"
    and "matches (class_at h (last as)) request \<or> next_handler (h ! last as) = None"
  shows "Handle_call Virtual h a request =
    Some (Inr (first_match (map (class_at h) as) request, h))"
  using assms
proof (induction h a as rule: linked.induct)
  case (1 h a)
  then show ?case by simp
next
  case (2 h a b)
  then show ?case by (auto simp: Handle_call_step)
next
  case (3 h a b c cs)
  from "3.prems"(1) have a: "a = b" "a < length h" "next_handler (h ! a) = Some c"
    and rest: "linked h c (c # cs)"
    by auto
  from "3.prems"(2) have "matches (class_at h (last (c # cs))) request \<or>
      next_handler (h ! last (c # cs)) = None"
    by simp
  with "3.IH" rest have "Handle_call Virtual h c request =
      Some (Inr (first_match (map (class_at h) (c # cs)) request, h))"
    by blast
  with a show ?case by (simp add: Handle_call_step)
qed

lemma description_nonempty: "matches c request \<Longrightarrow> description c request \<noteq> []"
  by (cases c) simp_all

lemma matches_unique: "matches c request \<Longrightarrow> matches c' request \<Longrightarrow> c = c'"
  by (cases c; cases c') auto

lemma first_match_empty_iff:
  "first_match cs request = [] \<longleftrightarrow> (\<forall>c \<in> set cs. \<not> matches c request)"
  by (induction cs) (auto simp: description_nonempty)

lemma first_match_none:
  "\<forall>c \<in> set cs. \<not> matches c request \<Longrightarrow> first_match cs request = []"
  by (simp add: first_match_empty_iff)

lemma first_match_at:
  "i < length cs \<Longrightarrow> matches (cs ! i) request \<Longrightarrow> \<forall>j<i. \<not> matches (cs ! j) request \<Longrightarrow>
   first_match cs request = description (cs ! i) request"
proof (induction cs arbitrary: i)
  case Nil
  then show ?case by simp
next
  case (Cons c cs)
  show ?case
  proof (cases i)
    case 0
    with Cons.prems show ?thesis by simp
  next
    case (Suc i')
    with Cons.prems have "\<not> matches c request" and "\<forall>j<i'. \<not> matches (cs ! j) request"
      by auto
    with Cons.IH [of i'] Cons.prems Suc show ?thesis by simp
  qed
qed

subsection \<open>A call leaves the store as it is\<close>

lemma Handle_call_frame:
  assumes "Handle_call d h this request = Some y"
  shows "case y of Inl e \<Rightarrow> True | Inr (res, h') \<Rightarrow> h' = h"
  using assms
proof (induction rule: Handle_call.raw_induct [rotated, consumes 1])
  case (1 f d h this request y)
  show ?case
  proof (cases "length h \<le> this")
    case True
    with 1(2) show ?thesis by auto
  next
    case False
    show ?thesis
    proof (cases d)
      case Virtual
      with False 1(2) have "f (Static (vptr (h ! this))) h this request = Some y" by simp
      from 1(1) [OF this] show ?thesis .
    next
      case (Static c)
      show ?thesis
      proof (cases "matches c request")
        case True
        with False Static 1(2) show ?thesis by (cases c) (auto split: if_splits)
      next
        case nm: False
        show ?thesis
        proof (cases "c = AbstractHandler")
          case True
          show ?thesis
          proof (cases "next_handler (h ! this)")
            case None
            with True False Static 1(2) show ?thesis by auto
          next
            case (Some n)
            with True False Static 1(2) have "f Virtual h n request = Some y" by simp
            from 1(1) [OF this] show ?thesis .
          qed
        next
          case na: False
          with nm False Static 1(2) have "f (Static AbstractHandler) h this request = Some y"
            by (cases c) (auto split: if_splits)
          from 1(1) [OF this] show ?thesis .
        qed
      qed
    qed
  qed
qed

subsection \<open>The budgeted calls\<close>

lemma Handle_within_dangling:
  "length h \<le> this \<Longrightarrow> Handle_within k d h this request = Some (Inl DanglingPointer)"
  by (subst Handle_within.simps) simp

lemma Handle_within_zero:
  "this < length h \<Longrightarrow> Handle_within 0 Virtual h this request = None"
  by (subst Handle_within.simps) simp

lemma Handle_within_Virtual:
  "this < length h \<Longrightarrow>
   Handle_within (Suc k) Virtual h this request =
   Handle_within k (Static (class_at h this)) h this request"
  by (subst Handle_within.simps) (simp add: class_at_def)

lemma Handle_within_Abstract:
  "this < length h \<Longrightarrow>
   Handle_within k (Static AbstractHandler) h this request =
     (case next_handler (h ! this) of
        Some n \<Rightarrow> Handle_within k Virtual h n request
      | None \<Rightarrow> Some (Inr ([], h)))"
  by (subst Handle_within.simps) simp

lemma Handle_within_Static:
  assumes "this < length h"
  shows "Handle_within k (Static c) h this request =
     (if matches c request then Some (Inr (description c request, h))
      else case next_handler (h ! this) of
             Some n \<Rightarrow> Handle_within k Virtual h n request
           | None \<Rightarrow> Some (Inr ([], h)))"
proof (cases c)
  case AbstractHandler
  with assms show ?thesis by (simp add: Handle_within_Abstract)
next
  case MonkeyHandler
  with assms show ?thesis
    by (subst Handle_within.simps) (simp add: Handle_within_Abstract)
next
  case SquirrelHandler
  with assms show ?thesis
    by (subst Handle_within.simps) (simp add: Handle_within_Abstract)
next
  case DogHandler
  with assms show ?thesis
    by (subst Handle_within.simps) (simp add: Handle_within_Abstract)
qed

lemma Handle_within_step:
  "this < length h \<Longrightarrow>
   Handle_within (Suc k) Virtual h this request =
     (if matches (class_at h this) request
      then Some (Inr (description (class_at h this) request, h))
      else case next_handler (h ! this) of
             Some n \<Rightarrow> Handle_within k Virtual h n request
           | None \<Rightarrow> Some (Inr ([], h)))"
  by (simp add: Handle_within_Virtual Handle_within_Static)

lemma Handle_within_chain:
  "chain h (Some a) as \<Longrightarrow>
   Handle_within k Virtual h a request =
     (if visits (map (class_at h) as) request \<le> k
      then Some (Inr (first_match (map (class_at h) as) request, h)) else None)"
proof (induction as arbitrary: a k)
  case Nil
  then show ?case by simp
next
  case (Cons b bs)
  then have a: "a = b" "a < length h" and rest: "chain h (next_handler (h ! a)) bs"
    by auto
  show ?case
  proof (cases k)
    case 0
    with a show ?thesis by (simp add: Handle_within_zero)
  next
    case (Suc k')
    show ?thesis
    proof (cases "next_handler (h ! a)")
      case None
      with rest have "bs = []" by simp
      with a None Suc show ?thesis by (simp add: Handle_within_step)
    next
      case (Some n)
      with rest Cons.IH [of n k'] have "Handle_within k' Virtual h n request =
        (if visits (map (class_at h) bs) request \<le> k'
         then Some (Inr (first_match (map (class_at h) bs) request, h)) else None)"
        by simp
      with a Some Suc show ?thesis by (simp add: Handle_within_step)
    qed
  qed
qed

lemma visits_le: "visits cs request \<le> length cs"
  by (induction cs) auto

lemma visits_pos: "cs \<noteq> [] \<Longrightarrow> 0 < visits cs request"
  by (cases cs) auto

lemma visits_before:
  "j < visits cs request - 1 \<Longrightarrow> \<not> matches (cs ! j) request"
proof (induction cs arbitrary: j)
  case Nil
  then show ?case by simp
next
  case (Cons c cs)
  show ?case
  proof (cases "matches c request")
    case True
    with Cons.prems show ?thesis by simp
  next
    case False
    show ?thesis
    proof (cases j)
      case 0
      with False show ?thesis by simp
    next
      case (Suc j')
      with Cons.prems False have "j' < visits cs request - 1" by simp
      with Cons.IH Suc show ?thesis by simp
    qed
  qed
qed

lemma visits_decision:
  "cs \<noteq> [] \<Longrightarrow>
   matches (cs ! (visits cs request - 1)) request \<or> visits cs request = length cs"
proof (induction cs)
  case Nil
  then show ?case by simp
next
  case (Cons c cs)
  show ?case
  proof (cases "matches c request")
    case True
    then show ?thesis by simp
  next
    case False
    show ?thesis
    proof (cases "cs = []")
      case True
      with False show ?thesis by simp
    next
      case ne: False
      then have "0 < visits cs request" by (rule visits_pos)
      then obtain m where m: "visits cs request = Suc m" by (cases "visits cs request") auto
      with Cons.IH [OF ne] False show ?thesis by simp
    qed
  qed
qed

lemma first_match_visits:
  assumes "cs \<noteq> []"
  shows "(matches (cs ! (visits cs request - 1)) request \<longrightarrow>
           first_match cs request = description (cs ! (visits cs request - 1)) request) \<and>
         (\<not> matches (cs ! (visits cs request - 1)) request \<longrightarrow>
           first_match cs request = [] \<and> visits cs request = length cs)"
proof (intro conjI impI)
  assume m: "matches (cs ! (visits cs request - 1)) request"
  from assms have "0 < visits cs request" by (rule visits_pos)
  with visits_le [of cs request] have "visits cs request - 1 < length cs" by simp
  then show "first_match cs request = description (cs ! (visits cs request - 1)) request"
    using m by (rule first_match_at) (simp add: visits_before)
next
  assume n: "\<not> matches (cs ! (visits cs request - 1)) request"
  with visits_decision [OF assms, of request] show len: "visits cs request = length cs"
    by simp
  have "\<not> matches (cs ! j) request" if "j < length cs" for j
  proof (cases "j < visits cs request - 1")
    case True
    then show ?thesis by (rule visits_before)
  next
    case False
    with that len have "j = visits cs request - 1" by simp
    with n show ?thesis by simp
  qed
  then have "\<forall>c \<in> set cs. \<not> matches c request" by (auto simp: in_set_conv_nth)
  then show "first_match cs request = []" by (rule first_match_none)
qed

text \<open>
  The budgeted calls and the calls agree: a call returns a value exactly when some budget
  is enough for it, and then with that value.
\<close>

lemma Handle_within_sound_Virtual:
  "Handle_within k Virtual h this request = Some y \<Longrightarrow>
   Handle_call Virtual h this request = Some y"
proof (induction k arbitrary: this)
  case 0
  then show ?case
    by (cases "length h \<le> this")
       (simp_all add: Handle_within_dangling Handle_call_dangling Handle_within_zero)
next
  case (Suc k)
  show ?case
  proof (cases "length h \<le> this")
    case True
    with Suc.prems show ?thesis by (simp add: Handle_within_dangling Handle_call_dangling)
  next
    case False
    then have v: "this < length h" by simp
    show ?thesis
    proof (cases "next_handler (h ! this)")
      case None
      with v Suc.prems show ?thesis
        by (auto simp: Handle_within_step Handle_call_step split: if_splits)
    next
      case (Some n)
      show ?thesis
      proof (cases "matches (class_at h this) request")
        case True
        with v Suc.prems show ?thesis by (simp add: Handle_within_step Handle_call_step)
      next
        case False
        with v Some Suc.prems have "Handle_within k Virtual h n request = Some y"
          by (simp add: Handle_within_step)
        then have "Handle_call Virtual h n request = Some y" by (rule Suc.IH)
        with v Some False show ?thesis by (simp add: Handle_call_step)
      qed
    qed
  qed
qed

lemma Handle_within_sound:
  assumes "Handle_within k d h this request = Some y"
  shows "Handle_call d h this request = Some y"
proof (cases "length h \<le> this")
  case True
  with assms show ?thesis by (simp add: Handle_within_dangling Handle_call_dangling)
next
  case False
  then have v: "this < length h" by simp
  show ?thesis
  proof (cases d)
    case Virtual
    with assms show ?thesis by (simp add: Handle_within_sound_Virtual)
  next
    case (Static c)
    show ?thesis
    proof (cases "next_handler (h ! this)")
      case None
      with assms v Static show ?thesis
        by (auto simp: Handle_within_Static Handle_call_Static split: if_splits)
    next
      case (Some n)
      show ?thesis
      proof (cases "matches c request")
        case True
        with assms v Static show ?thesis by (simp add: Handle_within_Static Handle_call_Static)
      next
        case False
        with assms v Static Some have "Handle_within k Virtual h n request = Some y"
          by (simp add: Handle_within_Static)
        then have "Handle_call Virtual h n request = Some y"
          by (rule Handle_within_sound_Virtual)
        with v Static Some False show ?thesis by (simp add: Handle_call_Static)
      qed
    qed
  qed
qed

lemma Handle_within_complete:
  assumes "Handle_call d h this request = Some y"
  shows "\<exists>k. Handle_within k d h this request = Some y"
  using assms
proof (induction rule: Handle_call.raw_induct [rotated, consumes 1])
  case (1 f d h this request y)
  show ?case
  proof (cases "length h \<le> this")
    case True
    with "1.hyps" show ?thesis by (simp add: Handle_within_dangling)
  next
    case False
    then have v: "this < length h" by simp
    show ?thesis
    proof (cases d)
      case Virtual
      with False "1.hyps" have "f (Static (vptr (h ! this))) h this request = Some y" by simp
      from "1.IH" [OF this] obtain k where
        "Handle_within k (Static (vptr (h ! this))) h this request = Some y" ..
      with v Virtual have "Handle_within (Suc k) d h this request = Some y"
        by (simp add: Handle_within_Virtual class_at_def)
      then show ?thesis ..
    next
      case (Static c)
      show ?thesis
      proof (cases "matches c request")
        case True
        with False Static "1.hyps" have "y = Inr (description c request, h)"
          by (cases c) (auto split: if_splits)
        with v Static True have "Handle_within 0 d h this request = Some y"
          by (simp add: Handle_within_Static)
        then show ?thesis ..
      next
        case nm: False
        show ?thesis
        proof (cases "c = AbstractHandler")
          case True
          show ?thesis
          proof (cases "next_handler (h ! this)")
            case None
            with True False Static "1.hyps" have "y = Inr ([], h)" by auto
            with v Static True None have "Handle_within 0 d h this request = Some y"
              by (simp add: Handle_within_Static)
            then show ?thesis ..
          next
            case (Some n)
            with True False Static "1.hyps" have "f Virtual h n request = Some y" by simp
            from "1.IH" [OF this] obtain k where
              "Handle_within k Virtual h n request = Some y" ..
            with v Static True Some have "Handle_within k d h this request = Some y"
              by (simp add: Handle_within_Static)
            then show ?thesis ..
          qed
        next
          case na: False
          with nm False Static "1.hyps"
          have "f (Static AbstractHandler) h this request = Some y"
            by (cases c) (auto split: if_splits)
          from "1.IH" [OF this] obtain k where
            "Handle_within k (Static AbstractHandler) h this request = Some y" ..
          with v Static nm have "Handle_within k d h this request = Some y"
            by (simp add: Handle_within_Static Handle_within_Abstract)
          then show ?thesis ..
        qed
      qed
    qed
  qed
qed

lemma Handle_call_iff_within:
  "Handle_call d h this request = Some y \<longleftrightarrow>
   (\<exists>k. Handle_within k d h this request = Some y)"
  by (blast intro: Handle_within_sound dest: Handle_within_complete)

text \<open>
  A budgeted call that returns a string has walked to a terminal decision: the Handlers
  of the walk before the last do not match, and the last one matches or has no successor.
\<close>

lemma Handle_within_decided:
  "Handle_within k Virtual h a request = Some (Inr (res, h')) \<Longrightarrow>
   \<exists>as. linked h a as \<and>
     (\<forall>j. Suc j < length as \<longrightarrow> \<not> matches (class_at h (as ! j)) request) \<and>
     (matches (class_at h (last as)) request \<or> next_handler (h ! last as) = None)"
proof (induction k arbitrary: a)
  case 0
  then show ?case
    by (cases "length h \<le> a") (simp_all add: Handle_within_dangling Handle_within_zero)
next
  case (Suc k)
  show ?case
  proof (cases "length h \<le> a")
    case True
    with Suc.prems show ?thesis by (simp add: Handle_within_dangling)
  next
    case False
    then have v: "a < length h" by simp
    show ?thesis
    proof (cases "matches (class_at h a) request \<or> next_handler (h ! a) = None")
      case True
      with v have "linked h a [a] \<and>
        (\<forall>j. Suc j < length [a] \<longrightarrow> \<not> matches (class_at h ([a] ! j)) request) \<and>
        (matches (class_at h (last [a])) request \<or> next_handler (h ! last [a]) = None)"
        by simp
      then show ?thesis by blast
    next
      case False
      then have nm: "\<not> matches (class_at h a) request" by simp
      from False obtain c where c: "next_handler (h ! a) = Some c" by auto
      with v nm Suc.prems have "Handle_within k Virtual h c request = Some (Inr (res, h'))"
        by (simp add: Handle_within_step)
      from Suc.IH [OF this] obtain as where as: "linked h c as"
        and before: "\<forall>j. Suc j < length as \<longrightarrow> \<not> matches (class_at h (as ! j)) request"
        and dec: "matches (class_at h (last as)) request \<or> next_handler (h ! last as) = None"
        by blast
      from linked_Cons [OF as] obtain cs where cs: "as = c # cs" by blast
      have l: "linked h a (a # as)" using v c as cs by simp
      have b: "\<forall>j. Suc j < length (a # as) \<longrightarrow> \<not> matches (class_at h ((a # as) ! j)) request"
      proof (intro allI impI)
        fix j assume j: "Suc j < length (a # as)"
        show "\<not> matches (class_at h ((a # as) ! j)) request"
        proof (cases j)
          case 0
          with nm show ?thesis by simp
        next
          case (Suc i)
          with j before show ?thesis by simp
        qed
      qed
      from dec cs have d: "matches (class_at h (last (a # as))) request \<or>
          next_handler (h ! last (a # as)) = None"
        by simp
      from l b d show ?thesis by blast
    qed
  qed
qed

subsection \<open>Calls through a pointer, and the program's store\<close>

lemma Handle_step:
  "this < length h \<Longrightarrow>
   Handle h (Some this) request =
     (if matches (class_at h this) request
      then Some (Inr (description (class_at h this) request, h))
      else case next_handler (h ! this) of
             Some n \<Rightarrow> Handle h (Some n) request
           | None \<Rightarrow> Some (Inr ([], h)))"
  by (simp add: Handle_def Handle_call_step split: option.splits)

lemma Handle_frame:
  assumes "Handle h p request = Some (Inr (res, h'))"
  shows "h' = h"
proof (cases p)
  case None
  with assms show ?thesis by (simp add: Handle_def)
next
  case (Some this)
  with assms have "Handle_call Virtual h this request = Some (Inr (res, h'))"
    by (simp add: Handle_def)
  from Handle_call_frame [OF this] show ?thesis by simp
qed

lemma Handle_chain:
  "chain h (Some a) as \<Longrightarrow>
   Handle h (Some a) request = Some (Inr (first_match (map (class_at h) as) request, h))"
  by (simp add: Handle_def Handle_call_chain)

lemma Handle_chain_from:
  assumes "chain h p as" and "k < length as"
  shows "Handle h (Some (as ! k)) request =
    Some (Inr (first_match (map (class_at h) (drop k as)) request, h))"
  using chain_drop [OF assms] by (rule Handle_chain)

lemma Handle_empty_iff:
  assumes "Handle h (Some a) request = Some (Inr (res, h'))"
  shows "res = [] \<longleftrightarrow> (\<forall>bs. linked h a bs \<longrightarrow> \<not> matches (class_at h (last bs)) request)"
proof -
  from assms have call: "Handle_call Virtual h a request = Some (Inr (res, h'))"
    by (simp add: Handle_def)
  from Handle_within_complete [OF call] obtain k where
    "Handle_within k Virtual h a request = Some (Inr (res, h'))" ..
  from Handle_within_decided [OF this] obtain as where as: "linked h a as"
    and before: "\<forall>j. Suc j < length as \<longrightarrow> \<not> matches (class_at h (as ! j)) request"
    and dec: "matches (class_at h (last as)) request \<or> next_handler (h ! last as) = None"
    by blast
  from linked_Cons [OF as] have ne: "as \<noteq> []" by auto
  from Handle_call_linked [OF as dec] call
  have "res = first_match (map (class_at h) as) request" by simp
  with linked_first_match [OF as before]
  have res: "res = (if matches (class_at h (last as)) request
      then description (class_at h (last as)) request else [])"
    by simp
  show ?thesis
  proof
    assume "res = []"
    with res description_nonempty [of "class_at h (last as)" request]
    have nl: "\<not> matches (class_at h (last as)) request"
      by (auto split: if_splits)
    with dec have "next_handler (h ! last as) = None" by simp
    with as have c: "chain h (Some a) as" by (rule linked_null_chain)
    have all: "\<not> matches (class_at h x) request" if "x \<in> set as" for x
    proof -
      from that obtain j where j: "j < length as" "x = as ! j" by (auto simp: in_set_conv_nth)
      show ?thesis
      proof (cases "Suc j < length as")
        case True
        with before j show ?thesis by simp
      next
        case False
        with j have "j = length as - 1" by simp
        with j ne have "x = last as" by (simp add: last_conv_nth)
        with nl show ?thesis by simp
      qed
    qed
    show "\<forall>bs. linked h a bs \<longrightarrow> \<not> matches (class_at h (last bs)) request"
    proof (intro allI impI)
      fix bs assume bs: "linked h a bs"
      from linked_Cons [OF bs] have "last bs \<in> set bs" by auto
      with linked_in_chain [OF bs c] have "last bs \<in> set as" by blast
      then show "\<not> matches (class_at h (last bs)) request" by (rule all)
    qed
  next
    assume "\<forall>bs. linked h a bs \<longrightarrow> \<not> matches (class_at h (last bs)) request"
    with as have "\<not> matches (class_at h (last as)) request" by blast
    with res show "res = []" by simp
  qed
qed

lemma SetNext_valid:
  "this < length h \<Longrightarrow>
   SetNext h (Some this) handler = Inr (handler, h[this := (h ! this)\<lparr>next_handler := handler\<rparr>])"
  by (simp add: SetNext_def AbstractHandler_SetNext_def)

lemma SetNext_SetNext_valid:
  assumes "a < length h" and "b < length h"
  shows "SetNext_SetNext h (Some a) (Some b) c =
    Inr (c, (h[a := (h ! a)\<lparr>next_handler := Some b\<rparr>])
              [b := ((h[a := (h ! a)\<lparr>next_handler := Some b\<rparr>]) ! b)\<lparr>next_handler := c\<rparr>])"
  using assms by (simp add: SetNext_SetNext_def SetNext_valid)

lemma main_chain_value:
  "main_chain = Inr ((Some 0, Some 1, Some 2),
     [\<lparr>vptr = MonkeyHandler, next_handler = Some 1\<rparr>,
      \<lparr>vptr = SquirrelHandler, next_handler = Some 2\<rparr>,
      \<lparr>vptr = DogHandler, next_handler = None\<rparr>])"
  by (simp add: main_chain_def make_shared_def SetNext_SetNext_def SetNext_def
      AbstractHandler_SetNext_def)

lemma main_store_value:
  "main_store =
     [\<lparr>vptr = MonkeyHandler, next_handler = Some 1\<rparr>,
      \<lparr>vptr = SquirrelHandler, next_handler = Some 2\<rparr>,
      \<lparr>vptr = DogHandler, next_handler = None\<rparr>]"
  by (simp add: main_store_def main_chain_value)

subsection \<open>Links that close a cycle\<close>

text \<open>
  The specification leaves it to the caller never to link a cycle, and the code does not
  look for one. For the record, what the code does when the caller links a Handler to
  itself: \<^verbatim>\<open>monkey->SetNext(monkey)->SetNext(dog)\<close> calls \<^verbatim>\<open>SetNext\<close> twice on the same
  receiver, so the second call replaces the link of the first; and on the self-loop left
  by \<^verbatim>\<open>monkey->SetNext(monkey)\<close> a request that Monkey does not match is passed on without
  end.
\<close>

lemma self_loop_never_returns:
  assumes "Handle_call d h this request = Some y"
  shows "\<not> (h = [\<lparr>vptr = MonkeyHandler, next_handler = Some 0\<rparr>] \<and> this = 0 \<and>
            request = ''Nut'' \<and> d \<in> {Virtual, Static MonkeyHandler, Static AbstractHandler})"
  using assms
proof (induction rule: Handle_call.raw_induct [rotated, consumes 1])
  case (1 f d h this request y)
  show ?case
  proof
    assume A: "h = [\<lparr>vptr = MonkeyHandler, next_handler = Some 0\<rparr>] \<and> this = 0 \<and>
            request = ''Nut'' \<and> d \<in> {Virtual, Static MonkeyHandler, Static AbstractHandler}"
    then consider "d = Virtual" | "d = Static MonkeyHandler" | "d = Static AbstractHandler"
      by auto
    then show False
    proof cases
      case 1
      with A "1.hyps" have "f (Static MonkeyHandler) h this request = Some y" by simp
      from "1.IH" [OF this] A show False by simp
    next
      case 2
      with A "1.hyps" have "f (Static AbstractHandler) h this request = Some y" by simp
      from "1.IH" [OF this] A show False by simp
    next
      case 3
      with A "1.hyps" have "f Virtual h this request = Some y" by simp
      from "1.IH" [OF this] A show False by simp
    qed
  qed
qed

lemma SetNext_SetNext_same_receiver:
  "SetNext_SetNext
     [\<lparr>vptr = MonkeyHandler, next_handler = None\<rparr>, \<lparr>vptr = DogHandler, next_handler = None\<rparr>]
     (Some 0) (Some 0) (Some 1) =
   Inr (Some 1,
     [\<lparr>vptr = MonkeyHandler, next_handler = Some 1\<rparr>, \<lparr>vptr = DogHandler, next_handler = None\<rparr>])"
  by (simp add: SetNext_SetNext_def SetNext_def AbstractHandler_SetNext_def)

lemma Handle_on_self_loop:
  "SetNext [\<lparr>vptr = MonkeyHandler, next_handler = None\<rparr>] (Some 0) (Some 0) =
     Inr (Some 0, [\<lparr>vptr = MonkeyHandler, next_handler = Some 0\<rparr>]) \<and>
   Handle [\<lparr>vptr = MonkeyHandler, next_handler = Some 0\<rparr>] (Some 0) ''Nut'' = None"
proof -
  have "Handle_call Virtual [\<lparr>vptr = MonkeyHandler, next_handler = Some 0\<rparr>] 0 ''Nut'' = None"
  proof (cases "Handle_call Virtual [\<lparr>vptr = MonkeyHandler, next_handler = Some 0\<rparr>] 0 ''Nut''")
    case None
    then show ?thesis .
  next
    case (Some y)
    from self_loop_never_returns [OF this] show ?thesis by simp
  qed
  then show ?thesis
    by (simp add: Handle_def SetNext_def AbstractHandler_SetNext_def)
qed

section \<open>The properties of the pipeline\<close>

text \<open>
  Claim C1. On every store and for every request, \<^verbatim>\<open>Handle\<close> on a Handler follows the
  algorithm of the specification. If the Handler's predicate matches the request, the
  call returns that Handler's description and does not forward: the result is the same
  whatever the successor is. If the predicate does not match and a successor \<open>n\<close> is
  installed, the call returns what \<^verbatim>\<open>Handle\<close> on \<open>n\<close> returns for the same request. The
  decision is taken in link order, one Handler at a time: along a walk of successor
  pointers whose Handlers, the last one apart, do not match, the call is the call on the
  last Handler of the walk.
\<close>

theorem Handle_follows_algorithm:
  "this < length h \<Longrightarrow>
     (matches (class_at h this) request \<longrightarrow>
        Handle h (Some this) request = Some (Inr (description (class_at h this) request, h))) \<and>
     (\<not> matches (class_at h this) request \<longrightarrow> next_handler (h ! this) = Some n \<longrightarrow>
        Handle h (Some this) request = Handle h (Some n) request) \<and>
     (linked h this as \<longrightarrow>
        (\<forall>j. Suc j < length as \<longrightarrow> \<not> matches (class_at h (as ! j)) request) \<longrightarrow>
        Handle h (Some this) request = Handle h (Some (last as)) request)"
proof (intro conjI impI)
  assume "this < length h" and "matches (class_at h this) request"
  then show "Handle h (Some this) request =
      Some (Inr (description (class_at h this) request, h))"
    by (simp add: Handle_step)
next
  assume "this < length h" and "\<not> matches (class_at h this) request"
    and "next_handler (h ! this) = Some n"
  then show "Handle h (Some this) request = Handle h (Some n) request"
    by (simp add: Handle_step)
next
  assume "linked h this as"
    and "\<forall>j. Suc j < length as \<longrightarrow> \<not> matches (class_at h (as ! j)) request"
  then show "Handle h (Some this) request = Handle h (Some (last as)) request"
    by (simp add: Handle_def linked_skip)
qed

theorem Handle_follows_algorithm_witness:
  "0 < length main_store \<and>
   matches (class_at main_store 0) ''Banana'' \<and>
   Handle main_store (Some 0) ''Banana'' =
     Some (Inr (''Monkey: I'll eat the Banana.\<newline>'', main_store)) \<and>
   \<not> matches (class_at main_store 0) ''MeatBall'' \<and>
   next_handler (main_store ! 0) = Some 1 \<and>
   Handle main_store (Some 0) ''MeatBall'' = Handle main_store (Some 1) ''MeatBall'' \<and>
   linked main_store 0 [0, 1, 2] \<and>
   \<not> matches (class_at main_store 1) ''MeatBall'' \<and>
   Handle main_store (Some 0) ''MeatBall'' = Handle main_store (Some 2) ''MeatBall''"
proof -
  have v: "0 < length main_store" by (simp add: main_store_value)
  have m: "matches (class_at main_store 0) ''Banana''"
    and n0: "\<not> matches (class_at main_store 0) ''MeatBall''"
    and n1: "\<not> matches (class_at main_store 1) ''MeatBall''"
    and s: "next_handler (main_store ! 0) = Some 1"
    and l: "linked main_store 0 [0, 1, 2]"
    by (simp_all add: main_store_value class_at_def)
  from n0 n1 have sk: "\<forall>j. Suc j < length [0, 1, 2 :: nat] \<longrightarrow>
      \<not> matches (class_at main_store ([0, 1, 2] ! j)) ''MeatBall''"
    by (simp add: less_Suc_eq)
  from Handle_follows_algorithm [OF v, of "''Banana''" 1 "[0, 1, 2]"] m
  have a: "Handle main_store (Some 0) ''Banana'' =
     Some (Inr (''Monkey: I'll eat the Banana.\<newline>'', main_store))"
    by (simp add: main_store_value class_at_def)
  from Handle_follows_algorithm [OF v, of "''MeatBall''" 1 "[0, 1, 2]"] n0 s
  have b: "Handle main_store (Some 0) ''MeatBall'' = Handle main_store (Some 1) ''MeatBall''"
    by blast
  from Handle_follows_algorithm [OF v, of "''MeatBall''" 1 "[0, 1, 2]"] l sk
  have c: "Handle main_store (Some 0) ''MeatBall'' = Handle main_store (Some 2) ''MeatBall''"
    by simp
  from v m a n0 s b l n1 c show ?thesis by blast
qed

text \<open>
  Claim C2. In an acyclic chain \<open>as\<close> in which the Handler at position \<open>i\<close> is the only one
  that matches the request, \<^verbatim>\<open>Handle\<close> entered at a position \<open>k \<le> i\<close> returns the
  description of the Handler at \<open>i\<close>, and entered at a position \<open>k > i\<close> it returns the
  empty string.
\<close>

theorem unique_match_entry_points:
  assumes "chain h p as" and "i < length as" and "matches (class_at h (as ! i)) request"
    and "\<forall>j<length as. j \<noteq> i \<longrightarrow> \<not> matches (class_at h (as ! j)) request"
    and "k < length as"
  shows "Handle h (Some (as ! k)) request =
     Some (Inr (if k \<le> i then description (class_at h (as ! i)) request else [], h))"
proof (cases "k \<le> i")
  case True
  let ?cs = "map (class_at h) (drop k as)"
  from True assms(2) have "i - k < length ?cs" by simp
  moreover from True assms(2,3) have "matches (?cs ! (i - k)) request" by simp
  moreover from True assms(2,4) have "\<forall>j<i - k. \<not> matches (?cs ! j) request" by auto
  ultimately have "first_match ?cs request = description (?cs ! (i - k)) request"
    by (rule first_match_at)
  with True assms(2) show ?thesis
    by (simp add: Handle_chain_from [OF assms(1,5)])
next
  case False
  let ?cs = "map (class_at h) (drop k as)"
  from False assms(4,5) have "\<forall>c \<in> set ?cs. \<not> matches c request"
    by (auto simp: in_set_conv_nth)
  then have "first_match ?cs request = []" by (rule first_match_none)
  with False show ?thesis by (simp add: Handle_chain_from [OF assms(1,5)])
qed

theorem unique_match_entry_points_witness:
  "chain main_store (Some 0) [0, 1, 2] \<and>
   matches (class_at main_store ([0, 1, 2] ! 1)) ''Nut'' \<and>
   \<not> matches (class_at main_store ([0, 1, 2] ! 0)) ''Nut'' \<and>
   \<not> matches (class_at main_store ([0, 1, 2] ! 2)) ''Nut'' \<and>
   Handle main_store (Some 0) ''Nut'' =
     Some (Inr (''Squirrel: I'll eat the Nut.\<newline>'', main_store)) \<and>
   Handle main_store (Some 1) ''Nut'' =
     Some (Inr (''Squirrel: I'll eat the Nut.\<newline>'', main_store)) \<and>
   Handle main_store (Some 2) ''Nut'' = Some (Inr ([], main_store))"
proof -
  have c: "chain main_store (Some 0) [0, 1, 2]"
    by (simp add: main_store_value)
  have i: "(1::nat) < length [0, 1, 2 :: nat]" by simp
  have m: "matches (class_at main_store ([0, 1, 2] ! 1)) ''Nut''"
    by (simp add: main_store_value class_at_def)
  have u: "\<forall>j<length [0, 1, 2 :: nat]. j \<noteq> 1 \<longrightarrow>
      \<not> matches (class_at main_store ([0, 1, 2] ! j)) ''Nut''"
    by (simp add: main_store_value class_at_def less_Suc_eq)
  have "Handle main_store (Some ([0, 1, 2] ! 0)) ''Nut'' =
      Some (Inr (''Squirrel: I'll eat the Nut.\<newline>'', main_store))"
    using unique_match_entry_points [OF c i m u, of 0] m
    by (simp add: main_store_value class_at_def)
  moreover have "Handle main_store (Some ([0, 1, 2] ! 1)) ''Nut'' =
      Some (Inr (''Squirrel: I'll eat the Nut.\<newline>'', main_store))"
    using unique_match_entry_points [OF c i m u, of 1]
    by (simp add: main_store_value class_at_def)
  moreover have "Handle main_store (Some ([0, 1, 2] ! 2)) ''Nut'' = Some (Inr ([], main_store))"
    using unique_match_entry_points [OF c i m u, of 2] by simp
  ultimately show ?thesis using c m u by (simp add: less_Suc_eq)
qed

text \<open>
  Claim C3. On every store, \<^verbatim>\<open>SetNext\<close> installs its argument as the successor of the
  receiver and returns the argument, not the receiver. So for Handlers \<open>a\<close>, \<open>b\<close>, \<open>c\<close> the
  fluent \<^verbatim>\<open>a->SetNext(b)->SetNext(c)\<close> leaves \<open>b\<close> as the successor of \<open>a\<close> and \<open>c\<close> as the
  successor of \<open>b\<close>: the second call is on \<open>b\<close>, not on \<open>a\<close>. Here \<open>a\<close> and \<open>b\<close> are two
  objects, as \<^verbatim>\<open>link\<close> requires of its caller: \<^verbatim>\<open>a->SetNext(a)\<close> would link a cycle.
\<close>

theorem SetNext_fluent:
  "(a < length h \<longrightarrow>
      SetNext h (Some a) p = Inr (p, h[a := (h ! a)\<lparr>next_handler := p\<rparr>])) \<and>
   (a < length h \<longrightarrow> b < length h \<longrightarrow> a \<noteq> b \<longrightarrow>
      (\<exists>h'. SetNext_SetNext h (Some a) (Some b) c = Inr (c, h') \<and>
         next_handler (h' ! a) = Some b \<and> next_handler (h' ! b) = c))"
  by (simp add: SetNext_valid SetNext_SetNext_valid)

theorem SetNext_fluent_witness:
  "(0::nat) < length [\<lparr>vptr = MonkeyHandler, next_handler = None\<rparr>] \<and>
   SetNext [\<lparr>vptr = MonkeyHandler, next_handler = None\<rparr>] (Some 0) None =
     Inr (None, [\<lparr>vptr = MonkeyHandler, next_handler = None\<rparr>]) \<and>
   (0::nat) < length [\<lparr>vptr = MonkeyHandler, next_handler = None\<rparr>,
      \<lparr>vptr = SquirrelHandler, next_handler = None\<rparr>, \<lparr>vptr = DogHandler, next_handler = None\<rparr>] \<and>
   (1::nat) < length [\<lparr>vptr = MonkeyHandler, next_handler = None\<rparr>,
      \<lparr>vptr = SquirrelHandler, next_handler = None\<rparr>, \<lparr>vptr = DogHandler, next_handler = None\<rparr>] \<and>
   (0::nat) \<noteq> 1 \<and>
   SetNext [\<lparr>vptr = MonkeyHandler, next_handler = None\<rparr>,
      \<lparr>vptr = SquirrelHandler, next_handler = None\<rparr>, \<lparr>vptr = DogHandler, next_handler = None\<rparr>]
      (Some 0) (Some 1) =
     Inr (Some 1, [\<lparr>vptr = MonkeyHandler, next_handler = Some 1\<rparr>,
      \<lparr>vptr = SquirrelHandler, next_handler = None\<rparr>, \<lparr>vptr = DogHandler, next_handler = None\<rparr>]) \<and>
   (\<exists>h'. SetNext_SetNext [\<lparr>vptr = MonkeyHandler, next_handler = None\<rparr>,
      \<lparr>vptr = SquirrelHandler, next_handler = None\<rparr>, \<lparr>vptr = DogHandler, next_handler = None\<rparr>]
      (Some 0) (Some 1) (Some 2) = Inr (Some 2, h') \<and>
      next_handler (h' ! 0) = Some 1 \<and> next_handler (h' ! 1) = Some 2)"
  using SetNext_fluent [of 0 "[\<lparr>vptr = MonkeyHandler, next_handler = None\<rparr>]" None 0 None]
    SetNext_fluent [of 0 "[\<lparr>vptr = MonkeyHandler, next_handler = None\<rparr>,
      \<lparr>vptr = SquirrelHandler, next_handler = None\<rparr>, \<lparr>vptr = DogHandler, next_handler = None\<rparr>]"
      "Some 1" 1 "Some 2"]
  by simp

text \<open>
  Claim C4. On a chain, which the data model has acyclic, \<^verbatim>\<open>Handle\<close> returns a string and
  no fault, and the string is empty exactly when no Handler of the chain matches the
  request; the Handlers of the chain are the Handlers that a walk from the entry point
  reaches. So a request that no reachable Handler matches gets the empty string. The
  reading of the empty string does not depend on the chain being acyclic: on every
  store, when \<^verbatim>\<open>Handle\<close> returns a string, the string is empty exactly when no Handler
  that a walk from the entry point reaches matches the request.
\<close>

theorem unmatched_is_sentinel:
  "(chain h (Some a) as \<longrightarrow>
      (\<exists>res. Handle h (Some a) request = Some (Inr (res, h)) \<and>
         (res = [] \<longleftrightarrow> (\<forall>b \<in> set as. \<not> matches (class_at h b) request)))) \<and>
   (chain h (Some a) as \<longrightarrow> (x \<in> set as \<longleftrightarrow> (\<exists>bs. linked h a bs \<and> last bs = x))) \<and>
   (Handle h (Some a) request = Some (Inr (r, h')) \<longrightarrow>
      (r = [] \<longleftrightarrow> (\<forall>bs. linked h a bs \<longrightarrow> \<not> matches (class_at h (last bs)) request)))"
proof (intro conjI impI)
  assume "chain h (Some a) as"
  then show "\<exists>res. Handle h (Some a) request = Some (Inr (res, h)) \<and>
         (res = [] \<longleftrightarrow> (\<forall>b \<in> set as. \<not> matches (class_at h b) request))"
    by (simp add: Handle_chain first_match_empty_iff)
next
  assume c: "chain h (Some a) as"
  show "x \<in> set as \<longleftrightarrow> (\<exists>bs. linked h a bs \<and> last bs = x)"
  proof
    assume "x \<in> set as"
    with c show "\<exists>bs. linked h a bs \<and> last bs = x" by (rule chain_reachable)
  next
    assume "\<exists>bs. linked h a bs \<and> last bs = x"
    then obtain bs where bs: "linked h a bs" "last bs = x" by blast
    from linked_Cons [OF bs(1)] have "last bs \<in> set bs" by auto
    with linked_in_chain [OF bs(1) c] bs(2) show "x \<in> set as" by blast
  qed
next
  assume "Handle h (Some a) request = Some (Inr (r, h'))"
  then show "r = [] \<longleftrightarrow>
      (\<forall>bs. linked h a bs \<longrightarrow> \<not> matches (class_at h (last bs)) request)"
    by (rule Handle_empty_iff)
qed

theorem unmatched_is_sentinel_witness:
  "chain main_store (Some 0) [0, 1, 2] \<and>
   \<not> matches (class_at main_store 0) ''Cup of coffee'' \<and>
   \<not> matches (class_at main_store 1) ''Cup of coffee'' \<and>
   \<not> matches (class_at main_store 2) ''Cup of coffee'' \<and>
   Handle main_store (Some 0) ''Cup of coffee'' = Some (Inr ([], main_store)) \<and>
   matches (class_at main_store 1) ''Nut'' \<and>
   (\<exists>res. Handle main_store (Some 0) ''Nut'' = Some (Inr (res, main_store)) \<and> res \<noteq> []) \<and>
   (\<exists>bs. linked main_store 0 bs \<and> last bs = 2) \<and>
   Handle [\<lparr>vptr = DogHandler, next_handler = Some 1\<rparr>,
           \<lparr>vptr = SquirrelHandler, next_handler = Some 0\<rparr>] (Some 1) ''MeatBall'' =
     Some (Inr (''Dog: I'll eat the MeatBall.\<newline>'',
       [\<lparr>vptr = DogHandler, next_handler = Some 1\<rparr>,
        \<lparr>vptr = SquirrelHandler, next_handler = Some 0\<rparr>])) \<and>
   (\<exists>bs. linked [\<lparr>vptr = DogHandler, next_handler = Some 1\<rparr>,
                 \<lparr>vptr = SquirrelHandler, next_handler = Some 0\<rparr>] 1 bs \<and>
      matches (class_at [\<lparr>vptr = DogHandler, next_handler = Some 1\<rparr>,
                 \<lparr>vptr = SquirrelHandler, next_handler = Some 0\<rparr>] (last bs)) ''MeatBall'')"
proof -
  let ?h2 = "[\<lparr>vptr = DogHandler, next_handler = Some 1\<rparr>,
              \<lparr>vptr = SquirrelHandler, next_handler = Some 0\<rparr>]"
  have c: "chain main_store (Some 0) [0, 1, 2]"
    by (simp add: main_store_value)
  have n: "\<not> matches (class_at main_store 0) ''Cup of coffee''"
    "\<not> matches (class_at main_store 1) ''Cup of coffee''"
    "\<not> matches (class_at main_store 2) ''Cup of coffee''"
    by (simp_all add: main_store_value class_at_def)
  have m: "matches (class_at main_store 1) ''Nut''"
    by (simp add: main_store_value class_at_def)
  note T1 = unmatched_is_sentinel [of main_store 0 "[0, 1, 2]" "''Cup of coffee''" 2 "[]" main_store]
  from T1 c n
  have s: "Handle main_store (Some 0) ''Cup of coffee'' = Some (Inr ([], main_store))"
    by auto
  from T1 c have w: "\<exists>bs. linked main_store 0 bs \<and> last bs = 2" by simp
  from unmatched_is_sentinel [of main_store 0 "[0, 1, 2]" "''Nut''" 2 "[]" main_store] c m
  have t: "\<exists>res. Handle main_store (Some 0) ''Nut'' = Some (Inr (res, main_store)) \<and> res \<noteq> []"
    by auto
  have d: "Handle ?h2 (Some 1) ''MeatBall'' =
      Some (Inr (''Dog: I'll eat the MeatBall.\<newline>'', ?h2))"
    by (simp add: Handle_step class_at_def)
  from unmatched_is_sentinel [of ?h2 1 "[]" "''MeatBall''" 0
      "''Dog: I'll eat the MeatBall.\<newline>''" ?h2] d
  have e: "\<exists>bs. linked ?h2 1 bs \<and> matches (class_at ?h2 (last bs)) ''MeatBall''"
    by simp
  from c n s m t w d e show ?thesis by blast
qed

text \<open>
  Claim C5. On the store that \<^verbatim>\<open>main\<close> builds (Monkey, Squirrel, Dog, linked in this
  order): \<^verbatim>\<open>Handle("Nut")\<close> at Monkey returns Squirrel's description, \<^verbatim>\<open>Handle("Banana")\<close> at
  Monkey returns Monkey's description, \<^verbatim>\<open>Handle("Cup of coffee")\<close> at Monkey returns the
  empty string, \<^verbatim>\<open>Handle("Nut")\<close> at Squirrel returns Squirrel's description and
  \<^verbatim>\<open>Handle("Banana")\<close> at Squirrel returns the empty string.
\<close>

theorem main_scenario:
  "\<exists>monkey squirrel dog h.
     main_chain = Inr ((monkey, squirrel, dog), h) \<and>
     Handle h monkey ''Nut'' = Some (Inr (''Squirrel: I'll eat the Nut.\<newline>'', h)) \<and>
     Handle h monkey ''Banana'' = Some (Inr (''Monkey: I'll eat the Banana.\<newline>'', h)) \<and>
     Handle h monkey ''Cup of coffee'' = Some (Inr ([], h)) \<and>
     Handle h squirrel ''Nut'' = Some (Inr (''Squirrel: I'll eat the Nut.\<newline>'', h)) \<and>
     Handle h squirrel ''Banana'' = Some (Inr ([], h))"
  unfolding main_chain_value
  by (simp add: Handle_def Handle_call_step class_at_def)

text \<open>
  Claim C6. A call of \<^verbatim>\<open>Handle\<close> that has returned a string, repeated on the store it
  left, returns the same string and leaves the same store. The string is a function of
  the classes in link order and of the request, and of nothing else: two calls, on any
  two stores and entry points, whose walks carry the same classes in the same order and
  end in a decision (the last Handler matches, or both walks end at a null successor),
  return the same string, which is \<open>first_match\<close> of these classes and the request.
\<close>

theorem Handle_deterministic:
  "(Handle h p request = Some (Inr (res, h')) \<longrightarrow>
      Handle h' p request = Some (Inr (res, h'))) \<and>
   (linked h1 a1 as1 \<longrightarrow> linked h2 a2 as2 \<longrightarrow>
      map (class_at h1) as1 = map (class_at h2) as2 \<longrightarrow>
      (matches (class_at h1 (last as1)) request \<or>
       next_handler (h1 ! last as1) = None \<and> next_handler (h2 ! last as2) = None) \<longrightarrow>
      (\<exists>r. Handle h1 (Some a1) request = Some (Inr (r, h1)) \<and>
           Handle h2 (Some a2) request = Some (Inr (r, h2)) \<and>
           r = first_match (map (class_at h1) as1) request))"
proof (intro conjI impI)
  assume H: "Handle h p request = Some (Inr (res, h'))"
  from Handle_frame [OF H] H show "Handle h' p request = Some (Inr (res, h'))" by simp
next
  assume l1: "linked h1 a1 as1" and l2: "linked h2 a2 as2"
    and eq: "map (class_at h1) as1 = map (class_at h2) as2"
    and dec: "matches (class_at h1 (last as1)) request \<or>
       next_handler (h1 ! last as1) = None \<and> next_handler (h2 ! last as2) = None"
  from l1 have ne1: "as1 \<noteq> []" by (cases as1) auto
  from l2 have ne2: "as2 \<noteq> []" by (cases as2) auto
  from eq ne1 ne2 have "last (map (class_at h1) as1) = last (map (class_at h2) as2)" by simp
  with ne1 ne2 have lc: "class_at h1 (last as1) = class_at h2 (last as2)"
    by (simp add: last_map)
  from dec have d1: "matches (class_at h1 (last as1)) request \<or>
      next_handler (h1 ! last as1) = None"
    by auto
  from dec lc have d2: "matches (class_at h2 (last as2)) request \<or>
      next_handler (h2 ! last as2) = None"
    by auto
  from Handle_call_linked [OF l1 d1] Handle_call_linked [OF l2 d2] eq
  show "\<exists>r. Handle h1 (Some a1) request = Some (Inr (r, h1)) \<and>
           Handle h2 (Some a2) request = Some (Inr (r, h2)) \<and>
           r = first_match (map (class_at h1) as1) request"
    by (simp add: Handle_def)
qed

theorem Handle_deterministic_witness:
  "Handle main_store (Some 0) ''Nut'' =
     Some (Inr (''Squirrel: I'll eat the Nut.\<newline>'', main_store)) \<and>
   linked main_store 1 [1, 2] \<and>
   linked [\<lparr>vptr = DogHandler, next_handler = Some 1\<rparr>,
          \<lparr>vptr = SquirrelHandler, next_handler = Some 0\<rparr>] 1 [1, 0] \<and>
   map (class_at main_store) [1, 2] =
     map (class_at [\<lparr>vptr = DogHandler, next_handler = Some 1\<rparr>,
          \<lparr>vptr = SquirrelHandler, next_handler = Some 0\<rparr>]) [1, 0] \<and>
   matches (class_at main_store (last [1, 2])) ''MeatBall'' \<and>
   Handle main_store (Some 1) ''MeatBall'' =
     Some (Inr (''Dog: I'll eat the MeatBall.\<newline>'', main_store)) \<and>
   Handle [\<lparr>vptr = DogHandler, next_handler = Some 1\<rparr>,
          \<lparr>vptr = SquirrelHandler, next_handler = Some 0\<rparr>] (Some 1) ''MeatBall'' =
     Some (Inr (''Dog: I'll eat the MeatBall.\<newline>'',
       [\<lparr>vptr = DogHandler, next_handler = Some 1\<rparr>,
        \<lparr>vptr = SquirrelHandler, next_handler = Some 0\<rparr>]))"
proof -
  let ?h2 = "[\<lparr>vptr = DogHandler, next_handler = Some 1\<rparr>,
          \<lparr>vptr = SquirrelHandler, next_handler = Some 0\<rparr>]"
  have first: "Handle main_store (Some 0) ''Nut'' =
     Some (Inr (''Squirrel: I'll eat the Nut.\<newline>'', main_store))"
    by (simp add: Handle_step main_store_value class_at_def)
  have l1: "linked main_store 1 [1, 2]" by (simp add: main_store_value)
  have l2: "linked ?h2 1 [1, 0]" by simp
  have cl: "map (class_at main_store) [1, 2] = map (class_at ?h2) [1, 0]"
    by (simp add: main_store_value class_at_def)
  have m: "matches (class_at main_store (last [1, 2])) ''MeatBall''"
    by (simp add: main_store_value class_at_def)
  have again: "Handle main_store (Some 0) ''Nut'' =
     Some (Inr (''Squirrel: I'll eat the Nut.\<newline>'', main_store))"
    using Handle_deterministic [of main_store "Some 0" "''Nut''"
        "''Squirrel: I'll eat the Nut.\<newline>''" main_store] first
    by simp
  have "\<exists>r. Handle main_store (Some 1) ''MeatBall'' = Some (Inr (r, main_store)) \<and>
      Handle ?h2 (Some 1) ''MeatBall'' = Some (Inr (r, ?h2)) \<and>
      r = first_match (map (class_at main_store) [1, 2]) ''MeatBall''"
    using Handle_deterministic [of main_store "Some 0" "''MeatBall''" "[]" main_store
        main_store 1 "[1, 2]" ?h2 1 "[1, 0]"] l1 l2 cl m
    by blast
  then have "Handle main_store (Some 1) ''MeatBall'' =
       Some (Inr (''Dog: I'll eat the MeatBall.\<newline>'', main_store)) \<and>
     Handle ?h2 (Some 1) ''MeatBall'' = Some (Inr (''Dog: I'll eat the MeatBall.\<newline>'', ?h2))"
    by (simp add: main_store_value class_at_def)
  with again l1 l2 cl m show ?thesis by simp
qed

text \<open>
  Claim C7. On an acyclic chain \<open>as\<close>, \<^verbatim>\<open>Handle\<close> returns. It visits some number \<open>m\<close> of
  Handlers, at least one and at most as many as the chain has: a budget of \<open>k\<close> visits is
  enough exactly when \<open>m \<le> k\<close>. It returns at the first terminal decision: the \<open>m - 1\<close>
  Handlers before the last one visited do not match, and the last one visited either
  matches, and the result is its description, or is the end of the chain (it has no
  successor), and the result is the empty string.
\<close>

theorem Handle_terminates:
  assumes "chain h (Some a) as"
  shows "\<exists>m res. 0 < m \<and> m \<le> length as \<and>
     (\<forall>k. Handle_within k Virtual h a request =
        (if m \<le> k then Some (Inr (res, h)) else None)) \<and>
     Handle h (Some a) request = Some (Inr (res, h)) \<and>
     (\<forall>j<m - 1. \<not> matches (class_at h (as ! j)) request) \<and>
     (matches (class_at h (as ! (m - 1))) request \<and>
        res = description (class_at h (as ! (m - 1))) request \<or>
      \<not> matches (class_at h (as ! (m - 1))) request \<and> m = length as \<and>
        next_handler (h ! (as ! (m - 1))) = None \<and> res = [])"
proof -
  let ?cs = "map (class_at h) as"
  let ?m = "visits ?cs request"
  let ?res = "first_match ?cs request"
  from assms have ne: "as \<noteq> []" by (cases as) auto
  then have pos: "0 < ?m" by (simp add: visits_pos)
  have le: "?m \<le> length as" using visits_le [of ?cs request] by simp
  from pos le have idx: "?m - 1 < length as" by simp
  have within: "\<forall>k. Handle_within k Virtual h a request =
      (if ?m \<le> k then Some (Inr (?res, h)) else None)"
    by (simp add: Handle_within_chain [OF assms])
  have call: "Handle h (Some a) request = Some (Inr (?res, h))"
    by (rule Handle_chain [OF assms])
  have before: "\<forall>j<?m - 1. \<not> matches (class_at h (as ! j)) request"
  proof (intro allI impI)
    fix j assume j: "j < ?m - 1"
    then have "\<not> matches (?cs ! j) request" by (rule visits_before)
    with j idx show "\<not> matches (class_at h (as ! j)) request" by simp
  qed
  from ne have cne: "?cs \<noteq> []" by simp
  have decision: "matches (class_at h (as ! (?m - 1))) request \<and>
        ?res = description (class_at h (as ! (?m - 1))) request \<or>
      \<not> matches (class_at h (as ! (?m - 1))) request \<and> ?m = length as \<and>
        next_handler (h ! (as ! (?m - 1))) = None \<and> ?res = []"
  proof (cases "matches (class_at h (as ! (?m - 1))) request")
    case True
    with idx have "matches (?cs ! (?m - 1)) request" by simp
    with first_match_visits [OF cne, of request]
    have "?res = description (?cs ! (?m - 1)) request" by blast
    with True idx show ?thesis by simp
  next
    case False
    with idx have "\<not> matches (?cs ! (?m - 1)) request" by simp
    with first_match_visits [OF cne, of request]
    have r: "?res = []" and l: "?m = length as" by simp_all
    from l ne have "as ! (?m - 1) = last as" by (simp add: last_conv_nth)
    with chain_last_null [OF assms ne] have "next_handler (h ! (as ! (?m - 1))) = None"
      by simp
    with False r l show ?thesis by simp
  qed
  from pos le within call before decision show ?thesis by blast
qed

theorem Handle_terminates_witness:
  "chain main_store (Some 0) [0, 1, 2] \<and>
   Handle_within (length [0, 1, 2 :: nat]) Virtual main_store 0 ''Cup of coffee'' =
     Some (Inr ([], main_store)) \<and>
   Handle main_store (Some 0) ''Cup of coffee'' = Some (Inr ([], main_store))"
proof -
  have c: "chain main_store (Some 0) [0, 1, 2]"
    by (simp add: main_store_value)
  from Handle_terminates [OF c, of "''Cup of coffee''"] obtain m res where
    m: "m \<le> length [0, 1, 2 :: nat]"
    and w: "\<forall>k. Handle_within k Virtual main_store 0 ''Cup of coffee'' =
        (if m \<le> k then Some (Inr (res, main_store)) else None)"
    and r: "Handle main_store (Some 0) ''Cup of coffee'' = Some (Inr (res, main_store))"
    by blast
  have "Handle main_store (Some 0) ''Cup of coffee'' = Some (Inr ([], main_store))"
    by (simp add: Handle_step main_store_value class_at_def)
  with r have "res = []" by simp
  with m w r c show ?thesis by simp
qed

text \<open>
  Claim C8. A call of \<^verbatim>\<open>Handle\<close> that returns leaves the store as it was, so every
  successor link is what it was before the call. \<^verbatim>\<open>SetNext\<close> on a Handler replaces the
  successor link of this Handler, in one update of the store, returns its argument, and
  leaves the class of the receiver and every other object as they were. The one other
  operation, construction by \<^verbatim>\<open>make_shared\<close>, changes no object that exists.
\<close>

theorem Handle_keeps_links:
  "(Handle h p request = Some (Inr (res, h')) \<longrightarrow> h' = h) \<and>
   (this < length h \<longrightarrow>
      (\<exists>h'. SetNext h (Some this) s = Inr (s, h') \<and> length h' = length h \<and>
         next_handler (h' ! this) = s \<and> vptr (h' ! this) = vptr (h ! this) \<and>
         (\<forall>b<length h. b \<noteq> this \<longrightarrow> h' ! b = h ! b))) \<and>
   (\<forall>b<length h. snd (make_shared c h) ! b = h ! b)"
proof (intro conjI impI)
  assume "Handle h p request = Some (Inr (res, h'))"
  then show "h' = h" by (rule Handle_frame)
next
  assume "this < length h"
  then show "\<exists>h'. SetNext h (Some this) s = Inr (s, h') \<and> length h' = length h \<and>
         next_handler (h' ! this) = s \<and> vptr (h' ! this) = vptr (h ! this) \<and>
         (\<forall>b<length h. b \<noteq> this \<longrightarrow> h' ! b = h ! b)"
    by (simp add: SetNext_valid)
next
  show "\<forall>b<length h. snd (make_shared c h) ! b = h ! b"
    by (simp add: make_shared_def nth_append)
qed

theorem Handle_keeps_links_witness:
  "Handle main_store (Some 0) ''Nut'' =
     Some (Inr (''Squirrel: I'll eat the Nut.\<newline>'', main_store)) \<and>
   (1::nat) < length main_store \<and>
   SetNext main_store (Some 1) None =
     Inr (None, [\<lparr>vptr = MonkeyHandler, next_handler = Some 1\<rparr>,
                 \<lparr>vptr = SquirrelHandler, next_handler = None\<rparr>,
                 \<lparr>vptr = DogHandler, next_handler = None\<rparr>]) \<and>
   snd (make_shared DogHandler main_store) ! 0 = main_store ! 0"
proof -
  have call: "Handle main_store (Some 0) ''Nut'' =
     Some (Inr (''Squirrel: I'll eat the Nut.\<newline>'', main_store))"
    by (simp add: Handle_step main_store_value class_at_def)
  have v: "(1::nat) < length main_store" by (simp add: main_store_value)
  note T = Handle_keeps_links [of main_store "Some 0" "''Nut''"
      "''Squirrel: I'll eat the Nut.\<newline>''" main_store 1 None DogHandler]
  from T call have "main_store = main_store" by blast
  from T v obtain h' where s: "SetNext main_store (Some 1) None = Inr (None, h')"
    and l: "length h' = length main_store"
    and n: "next_handler (h' ! 1) = None"
    by blast
  from T have m: "\<forall>b<length main_store. snd (make_shared DogHandler main_store) ! b = main_store ! b"
    by blast
  have "SetNext main_store (Some 1) None =
     Inr (None, [\<lparr>vptr = MonkeyHandler, next_handler = Some 1\<rparr>,
                 \<lparr>vptr = SquirrelHandler, next_handler = None\<rparr>,
                 \<lparr>vptr = DogHandler, next_handler = None\<rparr>])"
    by (simp add: main_store_value SetNext_def AbstractHandler_SetNext_def)
  moreover from m have "snd (make_shared DogHandler main_store) ! 0 = main_store ! 0"
    by (simp add: main_store_value)
  ultimately show ?thesis using call v by simp
qed

text \<open>
  Claim C9. A Handler that \<^verbatim>\<open>make_shared\<close> has just constructed has a null successor.
  \<^verbatim>\<open>SetNext(nullptr)\<close> on a Handler returns without a fault; after it the chain entered
  at this Handler is this Handler alone, and \<^verbatim>\<open>Handle\<close> on it returns its own description
  if the request matches and the empty string otherwise. The same holds for every
  Handler whose successor is null.
\<close>

theorem null_successor_ends_chain:
  "(\<exists>a. fst (make_shared c h) = Some a \<and> a < length (snd (make_shared c h)) \<and>
        class_at (snd (make_shared c h)) a = c \<and>
        next_handler (snd (make_shared c h) ! a) = None) \<and>
   (this < length h \<longrightarrow>
      (\<exists>h'. SetNext h (Some this) None = Inr (None, h') \<and>
         next_handler (h' ! this) = None \<and> chain h' (Some this) [this] \<and>
         Handle h' (Some this) request =
           Some (Inr (if matches (class_at h this) request
                      then description (class_at h this) request else [], h')))) \<and>
   (this < length h \<longrightarrow> next_handler (h ! this) = None \<longrightarrow>
      Handle h (Some this) request =
        Some (Inr (if matches (class_at h this) request
                   then description (class_at h this) request else [], h)))"
proof (intro conjI impI)
  show "\<exists>a. fst (make_shared c h) = Some a \<and> a < length (snd (make_shared c h)) \<and>
        class_at (snd (make_shared c h)) a = c \<and>
        next_handler (snd (make_shared c h) ! a) = None"
    by (simp add: make_shared_def class_at_def)
next
  assume v: "this < length h"
  let ?h = "h[this := (h ! this)\<lparr>next_handler := None\<rparr>]"
  from v have "SetNext h (Some this) None = Inr (None, ?h)" by (rule SetNext_valid)
  moreover from v have "next_handler (?h ! this) = None" by simp
  moreover from v have "chain ?h (Some this) [this]" by simp
  moreover from v have "Handle ?h (Some this) request =
           Some (Inr (if matches (class_at h this) request
                      then description (class_at h this) request else [], ?h))"
    by (simp add: Handle_step class_at_def)
  ultimately show "\<exists>h'. SetNext h (Some this) None = Inr (None, h') \<and>
         next_handler (h' ! this) = None \<and> chain h' (Some this) [this] \<and>
         Handle h' (Some this) request =
           Some (Inr (if matches (class_at h this) request
                      then description (class_at h this) request else [], h'))"
    by blast
next
  assume "this < length h" and "next_handler (h ! this) = None"
  then show "Handle h (Some this) request =
        Some (Inr (if matches (class_at h this) request
                   then description (class_at h this) request else [], h))"
    by (simp add: Handle_step)
qed

theorem null_successor_ends_chain_witness:
  "(0::nat) < length main_store \<and>
   (\<exists>h'. SetNext main_store (Some 0) None = Inr (None, h') \<and>
      chain h' (Some 0) [0] \<and>
      Handle h' (Some 0) ''Nut'' = Some (Inr ([], h')) \<and>
      Handle h' (Some 0) ''Banana'' = Some (Inr (''Monkey: I'll eat the Banana.\<newline>'', h'))) \<and>
   (2::nat) < length main_store \<and> next_handler (main_store ! 2) = None \<and>
   Handle main_store (Some 2) ''MeatBall'' =
     Some (Inr (''Dog: I'll eat the MeatBall.\<newline>'', main_store)) \<and>
   Handle main_store (Some 2) ''Nut'' = Some (Inr ([], main_store))"
proof -
  have v0: "(0::nat) < length main_store" and v2: "(2::nat) < length main_store"
    and n2: "next_handler (main_store ! 2) = None"
    by (simp_all add: main_store_value)
  have c0: "class_at main_store 0 = MonkeyHandler" and c2: "class_at main_store 2 = DogHandler"
    by (simp_all add: main_store_value class_at_def)
  let ?h = "main_store[0 := (main_store ! 0)\<lparr>next_handler := None\<rparr>]"
  have s: "SetNext main_store (Some 0) None = Inr (None, ?h)"
    using v0 by (rule SetNext_valid)
  from null_successor_ends_chain [of MonkeyHandler main_store 0 "''Nut''"] v0 s c0
  have a: "chain ?h (Some 0) [0] \<and> Handle ?h (Some 0) ''Nut'' = Some (Inr ([], ?h))"
    by auto
  from null_successor_ends_chain [of MonkeyHandler main_store 0 "''Banana''"] v0 s c0
  have b: "Handle ?h (Some 0) ''Banana'' =
      Some (Inr (''Monkey: I'll eat the Banana.\<newline>'', ?h))"
    by auto
  from null_successor_ends_chain [of MonkeyHandler main_store 2 "''MeatBall''"] v2 n2 c2
  have d: "Handle main_store (Some 2) ''MeatBall'' =
     Some (Inr (''Dog: I'll eat the MeatBall.\<newline>'', main_store))"
    by simp
  from null_successor_ends_chain [of MonkeyHandler main_store 2 "''Nut''"] v2 n2 c2
  have e: "Handle main_store (Some 2) ''Nut'' = Some (Inr ([], main_store))"
    by simp
  from s a b have "\<exists>h'. SetNext main_store (Some 0) None = Inr (None, h') \<and>
      chain h' (Some 0) [0] \<and>
      Handle h' (Some 0) ''Nut'' = Some (Inr ([], h')) \<and>
      Handle h' (Some 0) ''Banana'' = Some (Inr (''Monkey: I'll eat the Banana.\<newline>'', h'))"
    by blast
  with v0 v2 n2 d e show ?thesis by blast
qed

text \<open>
  Claim C10. \<^verbatim>\<open>Handle\<close> of a Monkey, a Squirrel and a Dog claims the request exactly
  when the whole request equals \<^verbatim>\<open>"Banana"\<close>, \<^verbatim>\<open>"Nut"\<close> and \<^verbatim>\<open>"MeatBall"\<close>; any other
  request goes to the successor, or gets the empty string when there is none. The three
  literals are distinct, so in a chain with at most one Handler of each class at most
  one Handler matches a request. \<^verbatim>\<open>"banana"\<close> and \<^verbatim>\<open>"Banana "\<close> are not claimed by a Monkey.
\<close>

theorem literal_predicates:
  "(this < length h \<longrightarrow> class_at h this = MonkeyHandler \<longrightarrow>
      Handle h (Some this) request =
        (if request = ''Banana''
         then Some (Inr (''Monkey: I'll eat the Banana.\<newline>'', h))
         else case next_handler (h ! this) of
                Some n \<Rightarrow> Handle h (Some n) request
              | None \<Rightarrow> Some (Inr ([], h)))) \<and>
   (this < length h \<longrightarrow> class_at h this = SquirrelHandler \<longrightarrow>
      Handle h (Some this) request =
        (if request = ''Nut''
         then Some (Inr (''Squirrel: I'll eat the Nut.\<newline>'', h))
         else case next_handler (h ! this) of
                Some n \<Rightarrow> Handle h (Some n) request
              | None \<Rightarrow> Some (Inr ([], h)))) \<and>
   (this < length h \<longrightarrow> class_at h this = DogHandler \<longrightarrow>
      Handle h (Some this) request =
        (if request = ''MeatBall''
         then Some (Inr (''Dog: I'll eat the MeatBall.\<newline>'', h))
         else case next_handler (h ! this) of
                Some n \<Rightarrow> Handle h (Some n) request
              | None \<Rightarrow> Some (Inr ([], h)))) \<and>
   (matches c request \<longleftrightarrow>
      c = MonkeyHandler \<and> request = ''Banana'' \<or>
      c = SquirrelHandler \<and> request = ''Nut'' \<or>
      c = DogHandler \<and> request = ''MeatBall'') \<and>
   (chain h p as \<longrightarrow> distinct (map (class_at h) as) \<longrightarrow> i < length as \<longrightarrow> j < length as \<longrightarrow>
      matches (class_at h (as ! i)) request \<longrightarrow> matches (class_at h (as ! j)) request \<longrightarrow>
      i = j) \<and>
   (this < length h \<longrightarrow> class_at h this = MonkeyHandler \<longrightarrow>
      request = ''banana'' \<or> request = ''Banana '' \<longrightarrow>
      Handle h (Some this) request =
        (case next_handler (h ! this) of
           Some n \<Rightarrow> Handle h (Some n) request
         | None \<Rightarrow> Some (Inr ([], h))))"
proof (intro conjI impI)
  assume "this < length h" and "class_at h this = MonkeyHandler"
  then show "Handle h (Some this) request =
        (if request = ''Banana''
         then Some (Inr (''Monkey: I'll eat the Banana.\<newline>'', h))
         else case next_handler (h ! this) of
                Some n \<Rightarrow> Handle h (Some n) request
              | None \<Rightarrow> Some (Inr ([], h)))"
    by (simp add: Handle_step)
next
  assume "this < length h" and "class_at h this = SquirrelHandler"
  then show "Handle h (Some this) request =
        (if request = ''Nut''
         then Some (Inr (''Squirrel: I'll eat the Nut.\<newline>'', h))
         else case next_handler (h ! this) of
                Some n \<Rightarrow> Handle h (Some n) request
              | None \<Rightarrow> Some (Inr ([], h)))"
    by (simp add: Handle_step)
next
  assume "this < length h" and "class_at h this = DogHandler"
  then show "Handle h (Some this) request =
        (if request = ''MeatBall''
         then Some (Inr (''Dog: I'll eat the MeatBall.\<newline>'', h))
         else case next_handler (h ! this) of
                Some n \<Rightarrow> Handle h (Some n) request
              | None \<Rightarrow> Some (Inr ([], h)))"
    by (simp add: Handle_step)
next
  show "matches c request \<longleftrightarrow>
      c = MonkeyHandler \<and> request = ''Banana'' \<or>
      c = SquirrelHandler \<and> request = ''Nut'' \<or>
      c = DogHandler \<and> request = ''MeatBall''"
    by (cases c) simp_all
next
  assume d: "distinct (map (class_at h) as)" and i: "i < length as" and j: "j < length as"
    and "matches (class_at h (as ! i)) request" and "matches (class_at h (as ! j)) request"
  then have e: "class_at h (as ! i) = class_at h (as ! j)" by (rule_tac matches_unique)
  from d i j have "(map (class_at h) as ! i = map (class_at h) as ! j) = (i = j)"
    by (intro nth_eq_iff_index_eq) simp_all
  with e i j show "i = j" by simp
next
  assume "this < length h" and "class_at h this = MonkeyHandler"
    and "request = ''banana'' \<or> request = ''Banana ''"
  then show "Handle h (Some this) request =
        (case next_handler (h ! this) of
           Some n \<Rightarrow> Handle h (Some n) request
         | None \<Rightarrow> Some (Inr ([], h)))"
    by (auto simp: Handle_step)
qed

theorem literal_predicates_witness:
  "(0::nat) < length main_store \<and> class_at main_store 0 = MonkeyHandler \<and>
   (1::nat) < length main_store \<and> class_at main_store 1 = SquirrelHandler \<and>
   (2::nat) < length main_store \<and> class_at main_store 2 = DogHandler \<and>
   Handle main_store (Some 0) ''Banana'' =
     Some (Inr (''Monkey: I'll eat the Banana.\<newline>'', main_store)) \<and>
   Handle main_store (Some 1) ''Nut'' =
     Some (Inr (''Squirrel: I'll eat the Nut.\<newline>'', main_store)) \<and>
   Handle main_store (Some 2) ''MeatBall'' =
     Some (Inr (''Dog: I'll eat the MeatBall.\<newline>'', main_store)) \<and>
   chain main_store (Some 0) [0, 1, 2] \<and>
   distinct (map (class_at main_store) [0, 1, 2]) \<and>
   matches (class_at main_store ([0, 1, 2] ! 1)) ''Nut'' \<and>
   Handle main_store (Some 0) ''banana'' = Handle main_store (Some 1) ''banana'' \<and>
   Handle main_store (Some 0) ''Banana '' = Handle main_store (Some 1) ''Banana ''"
proof -
  have v: "(0::nat) < length main_store" "(1::nat) < length main_store"
    "(2::nat) < length main_store"
    by (simp_all add: main_store_value)
  have k: "class_at main_store 0 = MonkeyHandler" "class_at main_store 1 = SquirrelHandler"
    "class_at main_store 2 = DogHandler"
    by (simp_all add: main_store_value class_at_def)
  have n: "next_handler (main_store ! 0) = Some 1" by (simp add: main_store_value)
  have c: "chain main_store (Some 0) [0, 1, 2]" by (simp add: main_store_value)
  have d: "distinct (map (class_at main_store) [0, 1, 2])"
    by (simp add: main_store_value class_at_def)
  have m: "matches (class_at main_store ([0, 1, 2] ! 1)) ''Nut''"
    by (simp add: main_store_value class_at_def)
  from literal_predicates [of 0 main_store "''Banana''" MonkeyHandler "Some 0" "[0, 1, 2]" 1 1]
    v k
  have a1: "Handle main_store (Some 0) ''Banana'' =
     Some (Inr (''Monkey: I'll eat the Banana.\<newline>'', main_store))"
    by simp
  from literal_predicates [of 1 main_store "''Nut''" SquirrelHandler "Some 0" "[0, 1, 2]" 1 1]
    v k c d m
  have a2: "Handle main_store (Some 1) ''Nut'' =
     Some (Inr (''Squirrel: I'll eat the Nut.\<newline>'', main_store))"
    by simp
  from literal_predicates [of 2 main_store "''MeatBall''" DogHandler "Some 0" "[0, 1, 2]" 1 1]
    v k
  have a3: "Handle main_store (Some 2) ''MeatBall'' =
     Some (Inr (''Dog: I'll eat the MeatBall.\<newline>'', main_store))"
    by simp
  from literal_predicates [of 0 main_store "''banana''" MonkeyHandler "Some 0" "[0, 1, 2]" 1 1]
    v k n
  have a4: "Handle main_store (Some 0) ''banana'' = Handle main_store (Some 1) ''banana''"
    by simp
  from literal_predicates [of 0 main_store "''Banana ''" MonkeyHandler "Some 0" "[0, 1, 2]" 1 1]
    v k n
  have a5: "Handle main_store (Some 0) ''Banana '' = Handle main_store (Some 1) ''Banana ''"
    by simp
  from v k a1 a2 a3 c d m a4 a5 show ?thesis by blast
qed

end
